theory Spec2Isabelle
  imports Main
begin

section \<open>Circuit breaker (src/gateway/circuit-breaker.ts)\<close>

text \<open>
  The class \<^verbatim>\<open>CircuitBreaker\<close> is a record of its private fields; every method is a
  function from the record to the updated record. Numbers are integers (millisecond
  timestamps and counts). \<^verbatim>\<open>Date.now()\<close> is the parameter \<open>now\<close>: all readings of the
  clock inside one synchronous segment of the code return the same value.

  The optional callback \<^verbatim>\<open>config.onStateChange\<close> is external code. The configuration
  records whether it is provided, and the field \<open>notified\<close> of the breaker is the trace of
  its invocations, oldest first, each with its arguments \<open>(from, to)\<close>.
\<close>

datatype CircuitState = CLOSED | OPEN | HALF_OPEN

record CircuitBreakerConfig =
  failureThreshold :: int
  resetTimeoutMs :: int
  halfOpenMaxAttempts :: int
  onStateChange :: bool

record CircuitBreakerStats =
  stats_state :: CircuitState
  stats_failures :: int
  stats_successes :: int
  stats_lastFailureMs :: "int option"
  stats_consecutiveFailures :: int

datatype CircuitOpenError = CircuitOpenError (error_state: CircuitState) (retryAfterMs: int)

record CircuitBreaker =
  state :: CircuitState
  failures :: int
  successes :: int
  consecutiveFailures :: int
  lastFailureMs :: "int option"
  openedAtMs :: "int option"
  halfOpenInflight :: int
  notified :: "(CircuitState \<times> CircuitState) list"

text \<open>The field initialisers of the class: a new breaker.\<close>

definition createCircuitBreaker :: CircuitBreaker where
  "createCircuitBreaker =
     \<lparr>state = CLOSED, failures = 0, successes = 0, consecutiveFailures = 0,
      lastFailureMs = None, openedAtMs = None, halfOpenInflight = 0, notified = []\<rparr>"

text \<open>\<^verbatim>\<open>transition(to)\<close>: sets the state, then calls the callback when there is one.\<close>

definition transition :: "CircuitBreakerConfig \<Rightarrow> CircuitState \<Rightarrow> CircuitBreaker \<Rightarrow> CircuitBreaker" where
  "transition cfg to s =
     (let from = state s;
          s1 = s\<lparr>state := to\<rparr>
      in if onStateChange cfg then s1\<lparr>notified := notified s1 @ [(from, to)]\<rparr> else s1)"

text \<open>\<^verbatim>\<open>Date.now() - (this.openedAtMs ?? Date.now())\<close>\<close>

definition sinceOpened :: "int \<Rightarrow> CircuitBreaker \<Rightarrow> int" where
  "sinceOpened now s = now - (case openedAtMs s of None \<Rightarrow> now | Some t \<Rightarrow> t)"

text \<open>
  \<^verbatim>\<open>execute\<close>, first statement (the test of OPEN): \<open>Inl\<close> is the thrown
  \<^verbatim>\<open>CircuitOpenError\<close>, \<open>Inr\<close> the breaker with which control goes on.
\<close>

definition openGate :: "CircuitBreakerConfig \<Rightarrow> int \<Rightarrow> CircuitBreaker \<Rightarrow> CircuitOpenError + CircuitBreaker" where
  "openGate cfg now s =
     (if state s = OPEN then
        (let elapsed = sinceOpened now s
         in if elapsed \<ge> resetTimeoutMs cfg then Inr (transition cfg HALF_OPEN s)
            else Inl (CircuitOpenError OPEN (resetTimeoutMs cfg - elapsed)))
      else Inr s)"

text \<open>\<^verbatim>\<open>execute\<close>, second statement (the test of HALF_OPEN).\<close>

definition halfOpenGate :: "CircuitBreakerConfig \<Rightarrow> int \<Rightarrow> CircuitBreaker \<Rightarrow> CircuitOpenError + CircuitBreaker" where
  "halfOpenGate cfg now s =
     (if state s = HALF_OPEN then
        (if halfOpenInflight s \<ge> halfOpenMaxAttempts cfg then
           (let remaining = resetTimeoutMs cfg - sinceOpened now s
            in Inl (CircuitOpenError OPEN (max 0 remaining)))
         else Inr (s\<lparr>halfOpenInflight := halfOpenInflight s + 1\<rparr>))
      else Inr s)"

text \<open>
  The synchronous part of \<^verbatim>\<open>execute(fn)\<close>, up to the call \<^verbatim>\<open>fn()\<close>. The first component
  is \<open>Some e\<close> when \<open>e\<close> is thrown before \<^verbatim>\<open>fn\<close> is reached, and \<open>None\<close> when \<^verbatim>\<open>fn\<close> is
  invoked; the second is the breaker afterwards.
\<close>

definition admit :: "CircuitBreakerConfig \<Rightarrow> int \<Rightarrow> CircuitBreaker \<Rightarrow> CircuitOpenError option \<times> CircuitBreaker" where
  "admit cfg now s =
     (case openGate cfg now s of
        Inl e \<Rightarrow> (Some e, s)
      | Inr s1 \<Rightarrow>
          (case halfOpenGate cfg now s1 of
             Inl e \<Rightarrow> (Some e, s1)
           | Inr s2 \<Rightarrow> (None, s2)))"

definition onSuccess :: "CircuitBreakerConfig \<Rightarrow> CircuitBreaker \<Rightarrow> CircuitBreaker" where
  "onSuccess cfg s =
     (let s1 = s\<lparr>successes := successes s + 1\<rparr>
      in if state s1 = HALF_OPEN then
           (let s2 = s1\<lparr>halfOpenInflight := halfOpenInflight s1 - 1\<rparr>;
                s3 = transition cfg CLOSED s2
            in s3\<lparr>consecutiveFailures := 0, halfOpenInflight := 0\<rparr>)
         else s1\<lparr>consecutiveFailures := 0\<rparr>)"

definition onFailure :: "CircuitBreakerConfig \<Rightarrow> int \<Rightarrow> CircuitBreaker \<Rightarrow> CircuitBreaker" where
  "onFailure cfg now s =
     (let s1 = s\<lparr>failures := failures s + 1,
                 consecutiveFailures := consecutiveFailures s + 1,
                 lastFailureMs := Some now\<rparr>
      in if state s1 = HALF_OPEN then
           (let s2 = s1\<lparr>halfOpenInflight := halfOpenInflight s1 - 1\<rparr>;
                s3 = transition cfg OPEN s2
            in s3\<lparr>openedAtMs := Some now\<rparr>)
         else if state s1 = CLOSED \<and> consecutiveFailures s1 \<ge> failureThreshold cfg then
           (transition cfg OPEN s1)\<lparr>openedAtMs := Some now\<rparr>
         else s1)"

definition reset :: "CircuitBreaker \<Rightarrow> CircuitBreaker" where
  "reset s = s\<lparr>state := CLOSED, consecutiveFailures := 0, halfOpenInflight := 0,
               openedAtMs := None\<rparr>"

definition getState :: "CircuitBreaker \<Rightarrow> CircuitState" where
  "getState s = state s"

definition getStats :: "CircuitBreaker \<Rightarrow> CircuitBreakerStats" where
  "getStats s =
     \<lparr>stats_state = state s, stats_failures = failures s, stats_successes = successes s,
      stats_lastFailureMs = lastFailureMs s,
      stats_consecutiveFailures = consecutiveFailures s\<rparr>"

text \<open>
  A whole call \<^verbatim>\<open>await execute(fn)\<close> with nothing else running in between: \<^verbatim>\<open>fn\<close> is
  given by how its promise settles, and \<open>later\<close> is the clock when it does.
\<close>

datatype ('a, 'e) settled = Fulfilled 'a | Failed 'e

datatype ('a, 'e) outcome = Returned 'a | Threw 'e | CircuitOpen CircuitOpenError

definition execute ::
  "CircuitBreakerConfig \<Rightarrow> int \<Rightarrow> ('a, 'e) settled \<Rightarrow> int \<Rightarrow> CircuitBreaker
     \<Rightarrow> ('a, 'e) outcome \<times> CircuitBreaker" where
  "execute cfg now fn later s =
     (case admit cfg now s of
        (Some e, s1) \<Rightarrow> (CircuitOpen e, s1)
      | (None, s1) \<Rightarrow>
          (case fn of
             Fulfilled v \<Rightarrow> (Returned v, onSuccess cfg s1)
           | Failed err \<Rightarrow> (Threw err, onFailure cfg later s1)))"

text \<open>
  Calls overlap: between the call of \<^verbatim>\<open>fn\<close> and the settling of its promise other calls
  may start, settle or be rejected, and \<^verbatim>\<open>reset()\<close> may run. Each synchronous segment is
  one event, and a history of the breaker is a list of events.
\<close>

datatype event = Call int | Settle_ok | Settle_failed int | Reset

fun step :: "CircuitBreakerConfig \<Rightarrow> event \<Rightarrow> CircuitBreaker \<Rightarrow> CircuitBreaker" where
  "step cfg (Call now) s = snd (admit cfg now s)"
| "step cfg Settle_ok s = onSuccess cfg s"
| "step cfg (Settle_failed now) s = onFailure cfg now s"
| "step cfg Reset s = reset s"

fun run :: "CircuitBreakerConfig \<Rightarrow> event list \<Rightarrow> CircuitBreaker \<Rightarrow> CircuitBreaker" where
  "run cfg [] s = s"
| "run cfg (e # es) s = run cfg es (step cfg e s)"

text \<open>The configuration the tests start from (\<^verbatim>\<open>defaultConfig()\<close>), without a callback.\<close>

definition defaultConfig :: CircuitBreakerConfig where
  "defaultConfig =
     \<lparr>failureThreshold = 3, resetTimeoutMs = 10000, halfOpenMaxAttempts = 2,
      onStateChange = False\<rparr>"

text \<open>A run of calls that all fail, one after the other; the list gives the clock of each.\<close>

fun failedCalls :: "CircuitBreakerConfig \<Rightarrow> int list \<Rightarrow> CircuitBreaker \<Rightarrow> CircuitBreaker" where
  "failedCalls cfg [] s = s"
| "failedCalls cfg (t # ts) s = failedCalls cfg ts (snd (execute cfg t (Failed () :: (unit, unit) settled) t s))"

text \<open>
  The configuration of the test "limits concurrent attempts in HALF_OPEN": one failure
  opens the breaker, five seconds later it may be probed, by at most two calls at once.
\<close>

definition probeConfig :: CircuitBreakerConfig where
  "probeConfig = defaultConfig\<lparr>failureThreshold := 1, resetTimeoutMs := 5000\<rparr>"



text \<open>
  Which calls are probes still running is not something the class records: it keeps the
  count \<open>halfOpenInflight\<close> only. To compare the two, a traced history names every call:
  \<open>Start k now\<close> is the synchronous part of call \<open>k\<close>, \<open>Finish_ok k\<close> and
  \<open>Finish_failed k now\<close> are the settling of its promise. Beside the breaker, \<open>probing\<close>
  lists the calls that were admitted in HALF_OPEN (they took the branch
  \<^verbatim>\<open>this.halfOpenInflight++\<close> of \<^verbatim>\<open>execute\<close>) and have not settled yet. \<^verbatim>\<open>reset()\<close> cancels no
  call. The breaker of a traced history is the breaker of the history without the names.
\<close>

datatype tracedEvent = Start nat int | Finish_ok nat | Finish_failed nat int | Reset_breaker

record traced =
  breaker :: CircuitBreaker
  probing :: "nat list"

fun tracedStep :: "CircuitBreakerConfig \<Rightarrow> tracedEvent \<Rightarrow> traced \<Rightarrow> traced" where
  "tracedStep cfg (Start k now) tr =
     (case admit cfg now (breaker tr) of
        (Some e, s) \<Rightarrow> tr\<lparr>breaker := s\<rparr>
      | (None, s) \<Rightarrow>
          tr\<lparr>breaker := s,
             probing := (if state s = HALF_OPEN then probing tr @ [k] else probing tr)\<rparr>)"
| "tracedStep cfg (Finish_ok k) tr =
     tr\<lparr>breaker := onSuccess cfg (breaker tr), probing := removeAll k (probing tr)\<rparr>"
| "tracedStep cfg (Finish_failed k now) tr =
     tr\<lparr>breaker := onFailure cfg now (breaker tr), probing := removeAll k (probing tr)\<rparr>"
| "tracedStep cfg Reset_breaker tr = tr\<lparr>breaker := reset (breaker tr)\<rparr>"

fun tracedRun :: "CircuitBreakerConfig \<Rightarrow> tracedEvent list \<Rightarrow> traced \<Rightarrow> traced" where
  "tracedRun cfg [] tr = tr"
| "tracedRun cfg (e # es) tr = tracedRun cfg es (tracedStep cfg e tr)"

fun untraced :: "tracedEvent \<Rightarrow> event" where
  "untraced (Start k now) = Call now"
| "untraced (Finish_ok k) = Settle_ok"
| "untraced (Finish_failed k now) = Settle_failed now"
| "untraced Reset_breaker = Reset"

definition newTraced :: traced where
  "newTraced = \<lparr>breaker = createCircuitBreaker, probing = []\<rparr>"

section \<open>Sliding-window rate limiter (src/gateway/rate-limiter.ts)\<close>

text \<open>
  The class \<^verbatim>\<open>SlidingWindowRateLimiter\<close> is a record of its fields; the map of buckets is
  a partial function from keys to entries. \<^verbatim>\<open>Date.now()\<close> is again the parameter \<open>now\<close>.
  A method that changes a bucket in place returns the limiter with the changed bucket
  stored under its key.
\<close>

record BucketEntry =
  timestamps :: "int list"

record SlidingWindowRateLimiter =
  maxRequests :: int
  windowMs :: int
  buckets :: "string \<rightharpoonup> BucketEntry"

text \<open>The constructor; \<^verbatim>\<open>createRateLimiter(config)\<close> passes the two numbers on.\<close>

definition createRateLimiter :: "int \<Rightarrow> int \<Rightarrow> SlidingWindowRateLimiter" where
  "createRateLimiter m w = \<lparr>maxRequests = m, windowMs = w, buckets = Map.empty\<rparr>"

text \<open>
  The loop of \<^verbatim>\<open>prune\<close>: the index \<open>i\<close> moves right while it is inside the array and the
  timestamp under it is at most the cutoff.
\<close>

function pruneLoop :: "int list \<Rightarrow> int \<Rightarrow> nat \<Rightarrow> nat" where
  "pruneLoop ts cutoff i =
     (if i < length ts \<and> ts ! i \<le> cutoff then pruneLoop ts cutoff (i + 1) else i)"
  by pat_completeness auto
termination
  by (relation "measure (\<lambda>(ts, cutoff, i). length ts - i)") auto

declare pruneLoop.simps [simp del]

text \<open>\<^verbatim>\<open>prune(entry, now)\<close>: \<^verbatim>\<open>splice(0, i)\<close> removes the first \<open>i\<close> timestamps.\<close>

definition prune :: "SlidingWindowRateLimiter \<Rightarrow> BucketEntry \<Rightarrow> int \<Rightarrow> BucketEntry" where
  "prune lim entry now =
     (let cutoff = now - windowMs lim;
          i = pruneLoop (timestamps entry) cutoff 0
      in if i > 0 then entry\<lparr>timestamps := drop i (timestamps entry)\<rparr> else entry)"

definition getOrCreateEntry ::
  "SlidingWindowRateLimiter \<Rightarrow> string \<Rightarrow> BucketEntry \<times> SlidingWindowRateLimiter" where
  "getOrCreateEntry lim key =
     (case buckets lim key of
        None \<Rightarrow> (\<lparr>timestamps = []\<rparr>, lim\<lparr>buckets := (buckets lim)(key \<mapsto> \<lparr>timestamps = []\<rparr>)\<rparr>)
      | Some entry \<Rightarrow> (entry, lim))"

definition tryAcquire ::
  "SlidingWindowRateLimiter \<Rightarrow> string \<Rightarrow> int \<Rightarrow> bool \<times> SlidingWindowRateLimiter" where
  "tryAcquire lim key now =
     (if maxRequests lim \<le> 0 then (False, lim)
      else
        (let (entry, lim1) = getOrCreateEntry lim key;
             pruned = prune lim1 entry now
         in if int (length (timestamps pruned)) \<ge> maxRequests lim1 then
              (False, lim1\<lparr>buckets := (buckets lim1)(key \<mapsto> pruned)\<rparr>)
            else
              (True, lim1\<lparr>buckets := (buckets lim1)
                        (key \<mapsto> pruned\<lparr>timestamps := timestamps pruned @ [now]\<rparr>)\<rparr>)))"

definition getRemaining ::
  "SlidingWindowRateLimiter \<Rightarrow> string \<Rightarrow> int \<Rightarrow> int \<times> SlidingWindowRateLimiter" where
  "getRemaining lim key now =
     (if maxRequests lim \<le> 0 then (0, lim)
      else
        (case buckets lim key of
           None \<Rightarrow> (maxRequests lim, lim)
         | Some entry \<Rightarrow>
             (let pruned = prune lim entry now
              in (max 0 (maxRequests lim - int (length (timestamps pruned))),
                  lim\<lparr>buckets := (buckets lim)(key \<mapsto> pruned)\<rparr>))))"

text \<open>\<^verbatim>\<open>reset(key)\<close> and \<^verbatim>\<open>resetAll()\<close>.\<close>

definition resetKey :: "SlidingWindowRateLimiter \<Rightarrow> string \<Rightarrow> SlidingWindowRateLimiter" where
  "resetKey lim key = lim\<lparr>buckets := (buckets lim)(key := None)\<rparr>"

definition resetAll :: "SlidingWindowRateLimiter \<Rightarrow> SlidingWindowRateLimiter" where
  "resetAll lim = lim\<lparr>buckets := Map.empty\<rparr>"

text \<open>A history of a limiter: the calls made on it, each with the clock it reads.\<close>

datatype limiterCall = TryAcquire string int | GetRemaining string int | ResetKey string | ResetAll

fun limiterStep :: "limiterCall \<Rightarrow> SlidingWindowRateLimiter \<Rightarrow> SlidingWindowRateLimiter" where
  "limiterStep (TryAcquire key now) lim = snd (tryAcquire lim key now)"
| "limiterStep (GetRemaining key now) lim = snd (getRemaining lim key now)"
| "limiterStep (ResetKey key) lim = resetKey lim key"
| "limiterStep ResetAll lim = resetAll lim"

fun limiterRun :: "limiterCall list \<Rightarrow> SlidingWindowRateLimiter \<Rightarrow> SlidingWindowRateLimiter" where
  "limiterRun [] lim = lim"
| "limiterRun (c # cs) lim = limiterRun cs (limiterStep c lim)"

fun limiterReadings :: "limiterCall list \<Rightarrow> int list" where
  "limiterReadings [] = []"
| "limiterReadings (TryAcquire key now # cs) = now # limiterReadings cs"
| "limiterReadings (GetRemaining key now # cs) = now # limiterReadings cs"
| "limiterReadings (ResetKey key # cs) = limiterReadings cs"
| "limiterReadings (ResetAll # cs) = limiterReadings cs"

text \<open>Every bucket holds at most \<open>maxRequests\<close> timestamps.\<close>

definition withinLimit :: "SlidingWindowRateLimiter \<Rightarrow> bool" where
  "withinLimit lim =
     (\<forall>key entry. buckets lim key = Some entry \<longrightarrow> int (length (timestamps entry)) \<le> maxRequests lim)"

text \<open>Every bucket is in non-decreasing order and holds no timestamp later than \<open>t\<close>.\<close>

definition inOrder :: "int \<Rightarrow> SlidingWindowRateLimiter \<Rightarrow> bool" where
  "inOrder t lim =
     (\<forall>key entry. buckets lim key = Some entry \<longrightarrow>
        sorted (timestamps entry) \<and> (\<forall>x \<in> set (timestamps entry). x \<le> t))"

section \<open>Node registry (gateway/node-registry.ts, not among the sources)\<close>

text \<open>
  Modelled from the spec: the class \<^verbatim>\<open>NodeRegistry\<close>. The sources hold its test
  (src/gateway/node-registry.test.ts) but not the class, so the registry below follows
  sections 3, 4.1, 5 and 6 of the specification. The results of \<^verbatim>\<open>invoke\<close>: a payload, or
  one of the four registry error codes, or the error a node's reply carries.
\<close>

datatype InvokeError = NODE_NOT_FOUND | QUEUE_FULL | TIMEOUT | NODE_DISCONNECTED | NodeError string string

datatype InvokeResult = InvokeOk string | InvokeFailed InvokeError

text \<open>
  Modelled from the spec: a PendingCall (its correlation id is the key under which the
  connection stores it; its timer is the event \<open>TimerExpired\<close> below; its result
  continuation is the list \<open>fired\<close> of the registry), a Connection with its pending set,
  and a request frame.
\<close>

record PendingCall =
  command :: string
  timeoutMs :: int

record Connection =
  conn_id :: string
  node_id :: string
  pendingCalls :: "(nat \<times> PendingCall) list"

record Frame =
  frame_conn :: string
  frame_id :: nat
  frame_command :: string
  frame_params :: string

text \<open>
  Modelled from the spec: the state of the registry. \<open>connections\<close> are the active
  connections; \<open>nextCorrelation\<close> is the next fresh correlation id; \<open>transmitted\<close> are the
  frames sent to nodes, oldest first; \<open>fired\<close> records every firing of a result
  continuation, oldest first, with the connection and correlation id of its call.
\<close>

record NodeRegistry =
  connections :: "Connection list"
  nextCorrelation :: nat
  transmitted :: "Frame list"
  fired :: "((string \<times> nat) \<times> InvokeResult) list"

text \<open>
  Modelled from the spec: the bound on a connection's pending set ("a fixed maximum (1000)").
\<close>

definition maxPendingInvokes :: nat where
  "maxPendingInvokes = 1000"

text \<open>
  Modelled from the spec: \<^verbatim>\<open>new NodeRegistry()\<close>, with no connection.
\<close>

definition createNodeRegistry :: NodeRegistry where
  "createNodeRegistry = \<lparr>connections = [], nextCorrelation = 0, transmitted = [], fired = []\<rparr>"

text \<open>
  Modelled from the spec: \<^verbatim>\<open>register(connection, metadata)\<close> "admits a new Connection,
  initializes its empty pending-call set"; "re-registering the same id replaces the prior
  entry".
\<close>

definition register :: "NodeRegistry \<Rightarrow> string \<Rightarrow> string \<Rightarrow> NodeRegistry" where
  "register reg c n =
     reg\<lparr>connections := filter (\<lambda>conn. conn_id conn \<noteq> c) (connections reg)
                           @ [\<lparr>conn_id = c, node_id = n, pendingCalls = []\<rparr>]\<rparr>"



text \<open>
  Modelled from the spec: \<^verbatim>\<open>invoke\<close>, steps 1 to 3 of section 4.1. An unknown node gives
  NODE_NOT_FOUND and a full pending set gives QUEUE_FULL, both at once and with the
  registry unchanged; otherwise a fresh correlation id is allocated, the PendingCall is
  stored under it and the request frame is transmitted, and the result is deferred to the
  continuation of that call.
\<close>

fun updateFirst :: "('a \<Rightarrow> bool) \<Rightarrow> ('a \<Rightarrow> 'a) \<Rightarrow> 'a list \<Rightarrow> 'a list" where
  "updateFirst P f [] = []"
| "updateFirst P f (x # xs) = (if P x then f x # xs else x # updateFirst P f xs)"

datatype InvokeReturn = Immediate InvokeResult | Deferred nat

definition addPending :: "nat \<Rightarrow> PendingCall \<Rightarrow> Connection \<Rightarrow> Connection" where
  "addPending k call conn = conn\<lparr>pendingCalls := pendingCalls conn @ [(k, call)]\<rparr>"

definition invoke ::
  "NodeRegistry \<Rightarrow> string \<Rightarrow> string \<Rightarrow> string \<Rightarrow> int \<Rightarrow> InvokeReturn \<times> NodeRegistry" where
  "invoke reg n cmd params tmo =
     (case find (\<lambda>conn. node_id conn = n) (connections reg) of
        None \<Rightarrow> (Immediate (InvokeFailed NODE_NOT_FOUND), reg)
      | Some conn \<Rightarrow>
          if length (pendingCalls conn) \<ge> maxPendingInvokes then
            (Immediate (InvokeFailed QUEUE_FULL), reg)
          else
            (let k = nextCorrelation reg
             in (Deferred k,
                 reg\<lparr>connections :=
                       updateFirst (\<lambda>x. node_id x = n)
                         (addPending k \<lparr>command = cmd, timeoutMs = tmo\<rparr>) (connections reg),
                     nextCorrelation := k + 1,
                     transmitted := transmitted reg @
                       [\<lparr>frame_conn = conn_id conn, frame_id = k, frame_command = cmd,
                         frame_params = params\<rparr>]\<rparr>)))"

text \<open>
  Modelled from the spec: the number of entries for correlation id \<open>i\<close> in the pending
  sets of the connections with id \<open>c\<close>.
\<close>

fun pendingCount :: "Connection list \<Rightarrow> string \<Rightarrow> nat \<Rightarrow> nat" where
  "pendingCount [] c i = 0"
| "pendingCount (conn # conns) c i =
     (if conn_id conn = c then count_list (map fst (pendingCalls conn)) i else 0)
       + pendingCount conns c i"











text \<open>
  Modelled from the spec: \<open>k\<close> invokes of the same node in a row, none of them answered.
\<close>

fun invokeTimes :: "nat \<Rightarrow> string \<Rightarrow> string \<Rightarrow> string \<Rightarrow> int \<Rightarrow> NodeRegistry \<Rightarrow> NodeRegistry" where
  "invokeTimes 0 n cmd params tmo reg = reg"
| "invokeTimes (Suc k) n cmd params tmo reg =
     invokeTimes k n cmd params tmo (snd (invoke reg n cmd params tmo))"

section \<open>Properties of the circuit breaker\<close>

subsection \<open>Basic facts about the admission step\<close>

lemma transition_fields [simp]:
  "state (transition cfg to s) = to"
  "failures (transition cfg to s) = failures s"
  "successes (transition cfg to s) = successes s"
  "consecutiveFailures (transition cfg to s) = consecutiveFailures s"
  "lastFailureMs (transition cfg to s) = lastFailureMs s"
  "openedAtMs (transition cfg to s) = openedAtMs s"
  "halfOpenInflight (transition cfg to s) = halfOpenInflight s"
  by (simp_all add: transition_def Let_def)

lemma sinceOpened_transition [simp]:
  "sinceOpened now (transition cfg to s) = sinceOpened now s"
  by (simp add: sinceOpened_def)

lemma admit_closed: "state s = CLOSED \<Longrightarrow> admit cfg now s = (None, s)"
  by (simp add: admit_def openGate_def halfOpenGate_def)


lemma admit_half_open_full:
  "state s = HALF_OPEN \<Longrightarrow> halfOpenMaxAttempts cfg \<le> halfOpenInflight s \<Longrightarrow>
   admit cfg now s =
     (Some (CircuitOpenError OPEN (max 0 (resetTimeoutMs cfg - sinceOpened now s))), s)"
  by (simp add: admit_def openGate_def halfOpenGate_def Let_def)

lemma admit_half_open_free:
  "state s = HALF_OPEN \<Longrightarrow> halfOpenInflight s < halfOpenMaxAttempts cfg \<Longrightarrow>
   admit cfg now s = (None, s\<lparr>halfOpenInflight := halfOpenInflight s + 1\<rparr>)"
  by (simp add: admit_def openGate_def halfOpenGate_def Let_def)

lemma admit_open_late:
  "state s = OPEN \<Longrightarrow> resetTimeoutMs cfg \<le> sinceOpened now s \<Longrightarrow>
   admit cfg now s =
     (if halfOpenMaxAttempts cfg \<le> halfOpenInflight s
      then (Some (CircuitOpenError OPEN (max 0 (resetTimeoutMs cfg - sinceOpened now s))),
            transition cfg HALF_OPEN s)
      else (None, (transition cfg HALF_OPEN s)\<lparr>halfOpenInflight := halfOpenInflight s + 1\<rparr>))"
  by (simp add: admit_def openGate_def halfOpenGate_def Let_def)

text \<open>Evaluation of the breaker on concrete histories.\<close>

lemmas cb_eval = probeConfig_def defaultConfig_def createCircuitBreaker_def admit_def openGate_def
  halfOpenGate_def onFailure_def onSuccess_def reset_def transition_def sinceOpened_def Let_def

subsection \<open>Rejection while OPEN\<close>

text \<open>
  Claim C2, as stated, fails when the clock is set back. A breaker opened at time 1000
  with \<open>resetTimeoutMs = 10000\<close> and called when \<^verbatim>\<open>Date.now()\<close> reads 500 has an elapsed
  time of -500, below the timeout; the call is rejected with \<open>retryAfterMs = 10500\<close>, which
  is more than \<open>resetTimeoutMs\<close>.
\<close>

theorem open_retry_after_clock_set_back_counterexample:
  "state (run (defaultConfig\<lparr>failureThreshold := 1\<rparr>) [Call 1000, Settle_failed 1000] createCircuitBreaker) = OPEN
   \<and> openedAtMs (run (defaultConfig\<lparr>failureThreshold := 1\<rparr>) [Call 1000, Settle_failed 1000] createCircuitBreaker)
       = Some 1000
   \<and> 500 - 1000 < resetTimeoutMs (defaultConfig\<lparr>failureThreshold := 1\<rparr>)
   \<and> fst (admit (defaultConfig\<lparr>failureThreshold := 1\<rparr>) 500
        (run (defaultConfig\<lparr>failureThreshold := 1\<rparr>) [Call 1000, Settle_failed 1000] createCircuitBreaker))
       = Some (CircuitOpenError OPEN 10500)
   \<and> \<not> (10500 \<le> resetTimeoutMs (defaultConfig\<lparr>failureThreshold := 1\<rparr>))"
  by (simp add: cb_eval)

text \<open>
  Claim C2, amended. A breaker that is OPEN, that opened at time \<open>t\<close> (\<open>openedAtMs\<close>) and
  whose elapsed time \<open>now - t\<close> is below \<open>resetTimeoutMs\<close> rejects \<^verbatim>\<open>execute(fn)\<close> before
  \<^verbatim>\<open>fn\<close> is reached: the call throws a \<^verbatim>\<open>CircuitOpenError\<close> that carries the breaker's state
  (OPEN) and \<open>retryAfterMs = resetTimeoutMs - (now - t)\<close>, and the breaker is left as it
  was. That value is positive; it is at most \<open>resetTimeoutMs\<close> when the clock has not been
  set back since the breaker opened (\<open>t \<le> now\<close>). (An OPEN breaker without an open
  timestamp, which no history of a new breaker reaches, counts an elapsed time of 0.)
\<close>

theorem open_rejection_retry_after:
  "(state s = OPEN \<and> openedAtMs s = Some t \<and> now - t < resetTimeoutMs cfg \<longrightarrow>
      admit cfg now s = (Some (CircuitOpenError (state s) (resetTimeoutMs cfg - (now - t))), s)
      \<and> execute cfg now fn later s =
          (CircuitOpen (CircuitOpenError (state s) (resetTimeoutMs cfg - (now - t))), s)
      \<and> 0 < resetTimeoutMs cfg - (now - t)
      \<and> (t \<le> now \<longrightarrow> resetTimeoutMs cfg - (now - t) \<le> resetTimeoutMs cfg))
   \<and> (state s = OPEN \<and> openedAtMs s = None \<and> 0 < resetTimeoutMs cfg \<longrightarrow>
      admit cfg now s = (Some (CircuitOpenError (state s) (resetTimeoutMs cfg)), s)
      \<and> execute cfg now fn later s =
          (CircuitOpen (CircuitOpenError (state s) (resetTimeoutMs cfg)), s))"
  by (auto simp: execute_def admit_def openGate_def sinceOpened_def Let_def)

theorem open_rejection_retry_after_witness:
  "state (run (defaultConfig\<lparr>failureThreshold := 1\<rparr>) [Call 1000, Settle_failed 1000] createCircuitBreaker) = OPEN
   \<and> openedAtMs (run (defaultConfig\<lparr>failureThreshold := 1\<rparr>) [Call 1000, Settle_failed 1000] createCircuitBreaker)
       = Some 1000
   \<and> 4000 - 1000 < resetTimeoutMs (defaultConfig\<lparr>failureThreshold := 1\<rparr>)
   \<and> (1000 :: int) \<le> 4000
   \<and> execute (defaultConfig\<lparr>failureThreshold := 1\<rparr>) 4000 (Fulfilled ()) 4001
        (run (defaultConfig\<lparr>failureThreshold := 1\<rparr>) [Call 1000, Settle_failed 1000] createCircuitBreaker)
      = (CircuitOpen (CircuitOpenError OPEN 7000) :: (unit, unit) outcome,
         run (defaultConfig\<lparr>failureThreshold := 1\<rparr>) [Call 1000, Settle_failed 1000] createCircuitBreaker)
   \<and> (7000 :: int) \<le> resetTimeoutMs (defaultConfig\<lparr>failureThreshold := 1\<rparr>)"
  using open_rejection_retry_after
          [of "run (defaultConfig\<lparr>failureThreshold := 1\<rparr>) [Call 1000, Settle_failed 1000] createCircuitBreaker"
              1000 4000 "defaultConfig\<lparr>failureThreshold := 1\<rparr>" "Fulfilled ()" 4001]
  by (simp add: cb_eval)

subsection \<open>Counting failures while CLOSED\<close>

lemma onSuccess_closed:
  "state s = CLOSED \<Longrightarrow> onSuccess cfg s = s\<lparr>successes := successes s + 1, consecutiveFailures := 0\<rparr>"
  by (simp add: onSuccess_def Let_def)

lemma onFailure_closed_below:
  "state s = CLOSED \<Longrightarrow> consecutiveFailures s + 1 < failureThreshold cfg \<Longrightarrow>
   onFailure cfg now s =
     s\<lparr>failures := failures s + 1, consecutiveFailures := consecutiveFailures s + 1,
       lastFailureMs := Some now\<rparr>"
  by (simp add: onFailure_def Let_def)

lemma onFailure_closed_trips:
  "state s = CLOSED \<Longrightarrow> failureThreshold cfg \<le> consecutiveFailures s + 1 \<Longrightarrow>
   onFailure cfg now s =
     (transition cfg OPEN
        (s\<lparr>failures := failures s + 1, consecutiveFailures := consecutiveFailures s + 1,
           lastFailureMs := Some now\<rparr>))\<lparr>openedAtMs := Some now\<rparr>"
  by (simp add: onFailure_def Let_def)

lemma execute_failed_closed:
  "state s = CLOSED \<Longrightarrow> snd (execute cfg t (Failed e) t' s) = onFailure cfg t' s"
  by (simp add: execute_def admit_closed)

lemma execute_ok_closed:
  "state s = CLOSED \<Longrightarrow> snd (execute cfg t (Fulfilled v) t' s) = onSuccess cfg s"
  by (simp add: execute_def admit_closed)

lemma failedCalls_below:
  "state s = CLOSED \<Longrightarrow> consecutiveFailures s + int (length ts) < failureThreshold cfg \<Longrightarrow>
   state (failedCalls cfg ts s) = CLOSED \<and>
   consecutiveFailures (failedCalls cfg ts s) = consecutiveFailures s + int (length ts)"
proof (induction ts arbitrary: s)
  case Nil
  then show ?case by simp
next
  case (Cons t ts)
  let ?s1 = "snd (execute cfg t (Failed () :: (unit, unit) settled) t s)"
  have s1: "?s1 = s\<lparr>failures := failures s + 1, consecutiveFailures := consecutiveFailures s + 1,
       lastFailureMs := Some t\<rparr>"
    using Cons.prems by (simp add: execute_failed_closed onFailure_closed_below)
  have "state ?s1 = CLOSED" "consecutiveFailures ?s1 + int (length ts) < failureThreshold cfg"
    using Cons.prems by (simp_all add: s1)
  from Cons.IH[OF this] show ?case by (simp add: s1)
qed

lemma failedCalls_append:
  "failedCalls cfg (ts @ us) s = failedCalls cfg us (failedCalls cfg ts s)"
  by (induction ts arbitrary: s) simp_all

lemma failedCalls_trips:
  assumes "state s = CLOSED" "consecutiveFailures s + int (length ts) + 1 = failureThreshold cfg"
  shows "state (failedCalls cfg (ts @ [t]) s) = OPEN \<and>
         openedAtMs (failedCalls cfg (ts @ [t]) s) = Some t"
proof -
  let ?s1 = "failedCalls cfg ts s"
  have b: "state ?s1 = CLOSED \<and> consecutiveFailures ?s1 = consecutiveFailures s + int (length ts)"
    using assms by (intro failedCalls_below) simp_all
  then have "failureThreshold cfg \<le> consecutiveFailures ?s1 + 1" using assms by simp
  with b show ?thesis
    by (simp add: failedCalls_append execute_failed_closed onFailure_closed_trips)
qed

text \<open>
  Claim C4. A new breaker is CLOSED. While the breaker is CLOSED a call is let through,
  a failed call adds one to \<open>consecutiveFailures\<close>, and a successful call sets it to zero
  and leaves the state CLOSED. The failure that brings the count to \<open>failureThreshold\<close>
  moves the breaker to OPEN and records the clock of that failure in \<open>openedAtMs\<close>; a
  failure that leaves the count below the threshold changes neither. Hence, for a new
  breaker with \<open>failureThreshold = N\<close> (\<open>N \<ge> 1\<close>): after fewer than \<open>N\<close> failed calls in a
  row it is CLOSED with that many consecutive failures, the \<open>N\<close>-th failed call in a row
  opens it, and a successful call before the \<open>N\<close>-th failure resets the count, so that
  fewer than \<open>N\<close> further failures do not open it.
\<close>

theorem closed_counts_failures_and_trips:
  "state createCircuitBreaker = CLOSED
   \<and> (state s = CLOSED \<longrightarrow>
        admit cfg now s = (None, s)
        \<and> consecutiveFailures (onFailure cfg now s) = consecutiveFailures s + 1
        \<and> consecutiveFailures (onSuccess cfg s) = 0 \<and> state (onSuccess cfg s) = CLOSED
        \<and> (consecutiveFailures s + 1 < failureThreshold cfg \<longrightarrow>
             state (onFailure cfg now s) = CLOSED \<and> openedAtMs (onFailure cfg now s) = openedAtMs s)
        \<and> (failureThreshold cfg \<le> consecutiveFailures s + 1 \<longrightarrow>
             state (onFailure cfg now s) = OPEN \<and> openedAtMs (onFailure cfg now s) = Some now))
   \<and> (int (length ts) < failureThreshold cfg \<longrightarrow>
        state (failedCalls cfg ts createCircuitBreaker) = CLOSED
        \<and> consecutiveFailures (failedCalls cfg ts createCircuitBreaker) = int (length ts)
        \<and> state (snd (execute cfg now (Fulfilled v :: ('a, unit) settled) later (failedCalls cfg ts createCircuitBreaker))) = CLOSED
        \<and> consecutiveFailures (snd (execute cfg now (Fulfilled v :: ('a, unit) settled) later (failedCalls cfg ts createCircuitBreaker))) = 0
        \<and> (int (length us) < failureThreshold cfg \<longrightarrow>
             state (failedCalls cfg us
                (snd (execute cfg now (Fulfilled v :: ('a, unit) settled) later (failedCalls cfg ts createCircuitBreaker)))) = CLOSED))
   \<and> (int (length ts) + 1 = failureThreshold cfg \<longrightarrow>
        state (failedCalls cfg (ts @ [t]) createCircuitBreaker) = OPEN
        \<and> openedAtMs (failedCalls cfg (ts @ [t]) createCircuitBreaker) = Some t)"
proof -
  have init: "state createCircuitBreaker = CLOSED" "consecutiveFailures createCircuitBreaker = 0"
    by (simp_all add: createCircuitBreaker_def)
  have a: "state s = CLOSED \<longrightarrow>
        admit cfg now s = (None, s)
        \<and> consecutiveFailures (onFailure cfg now s) = consecutiveFailures s + 1
        \<and> consecutiveFailures (onSuccess cfg s) = 0 \<and> state (onSuccess cfg s) = CLOSED
        \<and> (consecutiveFailures s + 1 < failureThreshold cfg \<longrightarrow>
             state (onFailure cfg now s) = CLOSED \<and> openedAtMs (onFailure cfg now s) = openedAtMs s)
        \<and> (failureThreshold cfg \<le> consecutiveFailures s + 1 \<longrightarrow>
             state (onFailure cfg now s) = OPEN \<and> openedAtMs (onFailure cfg now s) = Some now)"
    by (simp add: admit_closed onSuccess_closed onFailure_def Let_def)
  have b: "int (length ts) < failureThreshold cfg \<longrightarrow>
        state (failedCalls cfg ts createCircuitBreaker) = CLOSED
        \<and> consecutiveFailures (failedCalls cfg ts createCircuitBreaker) = int (length ts)
        \<and> state (snd (execute cfg now (Fulfilled v :: ('a, unit) settled) later (failedCalls cfg ts createCircuitBreaker))) = CLOSED
        \<and> consecutiveFailures (snd (execute cfg now (Fulfilled v :: ('a, unit) settled) later (failedCalls cfg ts createCircuitBreaker))) = 0
        \<and> (int (length us) < failureThreshold cfg \<longrightarrow>
             state (failedCalls cfg us
                (snd (execute cfg now (Fulfilled v :: ('a, unit) settled) later (failedCalls cfg ts createCircuitBreaker)))) = CLOSED)"
  proof
    assume lt: "int (length ts) < failureThreshold cfg"
    let ?s1 = "failedCalls cfg ts createCircuitBreaker"
    let ?s2 = "snd (execute cfg now (Fulfilled v :: ('a, unit) settled) later ?s1)"
    have s1: "state ?s1 = CLOSED \<and> consecutiveFailures ?s1 = int (length ts)"
      using failedCalls_below[of createCircuitBreaker ts cfg] init lt by simp
    then have s2: "state ?s2 = CLOSED" "consecutiveFailures ?s2 = 0"
      by (simp_all add: execute_ok_closed onSuccess_closed)
    have "int (length us) < failureThreshold cfg \<longrightarrow> state (failedCalls cfg us ?s2) = CLOSED"
      using failedCalls_below[of ?s2 us cfg] s2 by simp
    with s1 s2 show "state ?s1 = CLOSED \<and> consecutiveFailures ?s1 = int (length ts)
        \<and> state ?s2 = CLOSED \<and> consecutiveFailures ?s2 = 0
        \<and> (int (length us) < failureThreshold cfg \<longrightarrow> state (failedCalls cfg us ?s2) = CLOSED)"
      by simp
  qed
  have c: "int (length ts) + 1 = failureThreshold cfg \<longrightarrow>
        state (failedCalls cfg (ts @ [t]) createCircuitBreaker) = OPEN
        \<and> openedAtMs (failedCalls cfg (ts @ [t]) createCircuitBreaker) = Some t"
    using failedCalls_trips[of createCircuitBreaker ts cfg t] init by simp
  from init(1) a b c show ?thesis by blast
qed

theorem closed_counts_failures_and_trips_witness:
  "state createCircuitBreaker = CLOSED
   \<and> int (length [10, 20 :: int]) < failureThreshold defaultConfig
   \<and> int (length [10, 20 :: int]) + 1 = failureThreshold defaultConfig
   \<and> consecutiveFailures (failedCalls defaultConfig [10, 20] createCircuitBreaker) = 2
   \<and> state (failedCalls defaultConfig [10, 20] createCircuitBreaker) = CLOSED
   \<and> state (failedCalls defaultConfig ([10, 20] @ [30]) createCircuitBreaker) = OPEN
   \<and> openedAtMs (failedCalls defaultConfig ([10, 20] @ [30]) createCircuitBreaker) = Some 30
   \<and> consecutiveFailures (snd (execute defaultConfig 25 (Fulfilled () :: (unit, unit) settled) 26
          (failedCalls defaultConfig [10, 20] createCircuitBreaker))) = 0
   \<and> state (failedCalls defaultConfig [30, 40]
          (snd (execute defaultConfig 25 (Fulfilled () :: (unit, unit) settled) 26
             (failedCalls defaultConfig [10, 20] createCircuitBreaker)))) = CLOSED"
  using closed_counts_failures_and_trips
          [of createCircuitBreaker defaultConfig 25 "[10, 20]" "()" 26 "[30, 40]" 30]
  by (simp add: defaultConfig_def createCircuitBreaker_def)

subsection \<open>Probes while HALF_OPEN\<close>

lemma step_inflight_bound:
  assumes "0 \<le> halfOpenMaxAttempts cfg" "halfOpenInflight s \<le> halfOpenMaxAttempts cfg"
  shows "halfOpenInflight (step cfg e s) \<le> halfOpenMaxAttempts cfg"
proof (cases e)
  case (Call now)
  then show ?thesis using assms
    by (auto simp: admit_def openGate_def halfOpenGate_def Let_def)
next
  case Settle_ok
  then show ?thesis using assms by (simp add: onSuccess_def Let_def)
next
  case (Settle_failed now)
  then show ?thesis using assms by (simp add: onFailure_def Let_def)
next
  case Reset
  then show ?thesis using assms by (simp add: reset_def)
qed

lemma run_inflight_bound:
  "0 \<le> halfOpenMaxAttempts cfg \<Longrightarrow> halfOpenInflight s \<le> halfOpenMaxAttempts cfg \<Longrightarrow>
   halfOpenInflight (run cfg es s) \<le> halfOpenMaxAttempts cfg"
  by (induction es arbitrary: s) (simp_all add: step_inflight_bound)

text \<open>
  What holds of the count that the class keeps: in HALF_OPEN a call is admitted, and
  counted, only while \<open>halfOpenInflight\<close> is below \<open>halfOpenMaxAttempts\<close>; a call that
  finds the count at the bound is rejected before \<^verbatim>\<open>fn\<close> is reached and the breaker is
  left as it was; the step from OPEN to HALF_OPEN keeps \<open>openedAtMs\<close>; and for
  \<open>halfOpenMaxAttempts \<ge> 0\<close> the count never exceeds the bound.
\<close>

lemma half_open_counter_bound:
  "(state s = HALF_OPEN \<and> halfOpenMaxAttempts cfg \<le> halfOpenInflight s \<longrightarrow>
      admit cfg now s =
        (Some (CircuitOpenError OPEN (max 0 (resetTimeoutMs cfg - sinceOpened now s))), s)
      \<and> execute cfg now fn later s =
        (CircuitOpen (CircuitOpenError OPEN (max 0 (resetTimeoutMs cfg - sinceOpened now s))), s))
   \<and> (state s = HALF_OPEN \<and> halfOpenInflight s < halfOpenMaxAttempts cfg \<longrightarrow>
      admit cfg now s = (None, s\<lparr>halfOpenInflight := halfOpenInflight s + 1\<rparr>))
   \<and> (state s = OPEN \<and> resetTimeoutMs cfg \<le> sinceOpened now s \<longrightarrow>
      state (snd (admit cfg now s)) = HALF_OPEN
      \<and> openedAtMs (snd (admit cfg now s)) = openedAtMs s)
   \<and> (0 \<le> halfOpenMaxAttempts cfg \<longrightarrow>
      halfOpenInflight (run cfg es createCircuitBreaker) \<le> halfOpenMaxAttempts cfg)"
proof -
  have "0 \<le> halfOpenMaxAttempts cfg \<longrightarrow>
      halfOpenInflight (run cfg es createCircuitBreaker) \<le> halfOpenMaxAttempts cfg"
    using run_inflight_bound[of cfg createCircuitBreaker es]
    by (simp add: createCircuitBreaker_def)
  moreover have "state s = OPEN \<and> resetTimeoutMs cfg \<le> sinceOpened now s \<longrightarrow>
      state (snd (admit cfg now s)) = HALF_OPEN
      \<and> openedAtMs (snd (admit cfg now s)) = openedAtMs s"
    by (simp add: admit_open_late)
  ultimately show ?thesis
    by (simp add: admit_half_open_full admit_half_open_free execute_def)
qed

lemma tracedStep_breaker: "breaker (tracedStep cfg e tr) = step cfg (untraced e) (breaker tr)"
  by (cases e) (auto split: prod.split option.split)

lemma tracedRun_breaker: "breaker (tracedRun cfg es tr) = run cfg (map untraced es) (breaker tr)"
  by (induction es arbitrary: tr) (simp_all add: tracedStep_breaker)

lemma admitted_probe_counted:
  "admit cfg now s = (None, s') \<Longrightarrow> state s' = HALF_OPEN \<Longrightarrow>
   halfOpenInflight s' = halfOpenInflight s + 1"
  by (cases "state s")
     (auto simp: admit_def openGate_def halfOpenGate_def Let_def split: if_splits)

text \<open>
  Claim C5. The count is not the number of probes that are running: \<^verbatim>\<open>onSuccess\<close> sets
  \<open>halfOpenInflight\<close> to zero when one probe succeeds, while other probes are still in
  flight. With \<open>halfOpenMaxAttempts = 2\<close>: one failure opens the breaker; after the timeout
  calls 1 and 2 are admitted as probes; call 1 succeeds, which closes the breaker and
  zeroes the count with call 2 still running; call 3 fails and opens the breaker again;
  after the timeout call 4 is admitted as a probe. Now the breaker is HALF_OPEN and two
  probes, 2 and 4, are in flight. Call 5 arrives and is admitted, not rejected: three
  probes are in flight against a bound of two, and the count says two.
\<close>

theorem half_open_admits_beyond_bound:
  "state (breaker (tracedRun probeConfig
      [Start 0 0, Finish_failed 0 0, Start 1 5000, Start 2 5000, Finish_ok 1,
       Start 3 6000, Finish_failed 3 6000, Start 4 11000] newTraced)) = HALF_OPEN
   \<and> probing (tracedRun probeConfig
      [Start 0 0, Finish_failed 0 0, Start 1 5000, Start 2 5000, Finish_ok 1,
       Start 3 6000, Finish_failed 3 6000, Start 4 11000] newTraced) = [2, 4]
   \<and> halfOpenMaxAttempts probeConfig = 2
   \<and> fst (admit probeConfig 11000 (breaker (tracedRun probeConfig
      [Start 0 0, Finish_failed 0 0, Start 1 5000, Start 2 5000, Finish_ok 1,
       Start 3 6000, Finish_failed 3 6000, Start 4 11000] newTraced))) = None
   \<and> probing (tracedRun probeConfig
      [Start 0 0, Finish_failed 0 0, Start 1 5000, Start 2 5000, Finish_ok 1,
       Start 3 6000, Finish_failed 3 6000, Start 4 11000, Start 5 11000] newTraced) = [2, 4, 5]
   \<and> halfOpenInflight (breaker (tracedRun probeConfig
      [Start 0 0, Finish_failed 0 0, Start 1 5000, Start 2 5000, Finish_ok 1,
       Start 3 6000, Finish_failed 3 6000, Start 4 11000, Start 5 11000] newTraced)) = 2"
  by (simp add: cb_eval newTraced_def)

subsection \<open>What a rejection in HALF_OPEN reports\<close>












subsection \<open>The observer of state changes\<close>

text \<open>
  Every state change made by \<^verbatim>\<open>execute\<close> (on admission, on success, on failure) goes
  through \<^verbatim>\<open>transition\<close>, which calls the observer once with the old and the new state;
  a step that leaves the state alone does not call it. Without an observer the breaker
  behaves the same.
\<close>

lemma observer_notified_on_transition:
  assumes "e \<noteq> Reset" "onStateChange cfg"
  shows "notified (step cfg e s) =
           (if state (step cfg e s) = state s then notified s
            else notified s @ [(state s, state (step cfg e s))])"
proof (cases e)
  case (Call now)
  then show ?thesis using assms
    by (cases "state s") (auto simp: admit_def openGate_def halfOpenGate_def transition_def Let_def)
next
  case Settle_ok
  then show ?thesis using assms
    by (cases "state s") (auto simp: onSuccess_def transition_def Let_def)
next
  case (Settle_failed now)
  then show ?thesis using assms
    by (cases "state s") (auto simp: onFailure_def transition_def Let_def)
next
  case Reset
  then show ?thesis using assms by simp
qed

lemma observer_absent_same_behaviour:
  "step (cfg\<lparr>onStateChange := False\<rparr>) e s = (step (cfg\<lparr>onStateChange := True\<rparr>) e s)\<lparr>notified := notified s\<rparr>"
  "fst (admit (cfg\<lparr>onStateChange := False\<rparr>) now s) = fst (admit (cfg\<lparr>onStateChange := True\<rparr>) now s)"
proof -
  show "step (cfg\<lparr>onStateChange := False\<rparr>) e s = (step (cfg\<lparr>onStateChange := True\<rparr>) e s)\<lparr>notified := notified s\<rparr>"
  proof (cases e)
    case (Call now)
    then show ?thesis
      by (cases "state s") (auto simp: admit_def openGate_def halfOpenGate_def transition_def Let_def)
  next
    case Settle_ok
    then show ?thesis by (cases "state s") (auto simp: onSuccess_def transition_def Let_def)
  next
    case (Settle_failed now)
    then show ?thesis by (cases "state s") (auto simp: onFailure_def transition_def Let_def)
  next
    case Reset
    then show ?thesis by (simp add: reset_def)
  qed
  show "fst (admit (cfg\<lparr>onStateChange := False\<rparr>) now s) = fst (admit (cfg\<lparr>onStateChange := True\<rparr>) now s)"
    by (cases "state s")
       (auto simp: admit_def openGate_def halfOpenGate_def transition_def sinceOpened_def Let_def)
qed

text \<open>
  Claim C8. The claim includes \<^verbatim>\<open>reset()\<close> among the state changes that invoke the
  observer. \<^verbatim>\<open>reset()\<close> assigns the state directly, without \<^verbatim>\<open>transition\<close>: a breaker
  with an observer that one failure has opened is CLOSED after \<^verbatim>\<open>reset()\<close>, and the
  observer has been called for the change from CLOSED to OPEN only, not for the change
  from OPEN to CLOSED.
\<close>

theorem reset_changes_state_without_notifying:
  "state (run (probeConfig\<lparr>onStateChange := True\<rparr>) [Call 0, Settle_failed 0] createCircuitBreaker) = OPEN
   \<and> notified (run (probeConfig\<lparr>onStateChange := True\<rparr>) [Call 0, Settle_failed 0] createCircuitBreaker)
       = [(CLOSED, OPEN)]
   \<and> state (run (probeConfig\<lparr>onStateChange := True\<rparr>) [Call 0, Settle_failed 0, Reset] createCircuitBreaker) = CLOSED
   \<and> notified (run (probeConfig\<lparr>onStateChange := True\<rparr>) [Call 0, Settle_failed 0, Reset] createCircuitBreaker)
       = [(CLOSED, OPEN)]"
  by (simp add: cb_eval)

subsection \<open>Reset\<close>

lemma reset_fields:
  "state (reset s) = CLOSED" "consecutiveFailures (reset s) = 0" "halfOpenInflight (reset s) = 0"
  "openedAtMs (reset s) = None" "failures (reset s) = failures s" "successes (reset s) = successes s"
  "lastFailureMs (reset s) = lastFailureMs s" "notified (reset s) = notified s"
  by (simp_all add: reset_def)

text \<open>
  Whatever the breaker's state, counts and configuration, after \<^verbatim>\<open>reset()\<close> the state is
  CLOSED, the consecutive-failure count and the count of probes in flight are zero and
  no open timestamp is recorded; \<^verbatim>\<open>getState\<close> and \<^verbatim>\<open>getStats\<close> report the same. The next
  call is let through: \<^verbatim>\<open>fn\<close> is invoked, and the call returns what \<^verbatim>\<open>fn\<close> returns or
  throws what it throws.
\<close>

lemma reset_closes_and_lets_calls_through:
  "state (reset s) = CLOSED
   \<and> consecutiveFailures (reset s) = 0
   \<and> halfOpenInflight (reset s) = 0
   \<and> openedAtMs (reset s) = None
   \<and> getState (reset s) = CLOSED
   \<and> stats_state (getStats (reset s)) = CLOSED
   \<and> stats_consecutiveFailures (getStats (reset s)) = 0
   \<and> admit cfg now (reset s) = (None, reset s)
   \<and> execute cfg now (Fulfilled v) later (reset s) = (Returned v, onSuccess cfg (reset s))
   \<and> execute cfg now (Failed err) later (reset s) = (Threw err, onFailure cfg later (reset s))"
  by (simp add: reset_fields getState_def getStats_def execute_def admit_closed)

text \<open>
  Claim C9. The claim has every counter of the breaker zero after \<^verbatim>\<open>reset()\<close>, as the
  comment on \<^verbatim>\<open>reset\<close> has it ("clear all counters"). \<^verbatim>\<open>reset()\<close> zeroes
  \<open>consecutiveFailures\<close> and \<open>halfOpenInflight\<close> and leaves the counters \<open>failures\<close> and
  \<open>successes\<close> as they are: a breaker that one failed call has opened is CLOSED after
  \<^verbatim>\<open>reset()\<close>, with no consecutive failure and no probe in flight, and \<^verbatim>\<open>getStats\<close> still
  reports one failure.
\<close>

theorem reset_keeps_cumulative_counters:
  "failures (run probeConfig [Call 0, Settle_failed 0] createCircuitBreaker) = 1
   \<and> state (reset (run probeConfig [Call 0, Settle_failed 0] createCircuitBreaker)) = CLOSED
   \<and> consecutiveFailures (reset (run probeConfig [Call 0, Settle_failed 0] createCircuitBreaker)) = 0
   \<and> halfOpenInflight (reset (run probeConfig [Call 0, Settle_failed 0] createCircuitBreaker)) = 0
   \<and> failures (reset (run probeConfig [Call 0, Settle_failed 0] createCircuitBreaker)) = 1
   \<and> stats_failures (getStats (reset (run probeConfig [Call 0, Settle_failed 0] createCircuitBreaker))) = 1"
  by (simp add: cb_eval getStats_def)

section \<open>Properties of the rate limiter\<close>

subsection \<open>What pruning removes\<close>

lemma pruneLoop_drop:
  "i \<le> length ts \<Longrightarrow> drop (pruneLoop ts cutoff i) ts = dropWhile (\<lambda>t. t \<le> cutoff) (drop i ts)"
proof (induction ts cutoff i rule: pruneLoop.induct)
  case (1 ts cutoff i)
  show ?case
  proof (cases "i < length ts \<and> ts ! i \<le> cutoff")
    case True
    then have d: "drop i ts = ts ! i # drop (Suc i) ts" by (simp add: Cons_nth_drop_Suc)
    have "drop (pruneLoop ts cutoff (i + 1)) ts = dropWhile (\<lambda>t. t \<le> cutoff) (drop (i + 1) ts)"
      using "1.IH" True by simp
    then show ?thesis using True d by (simp add: pruneLoop.simps[of ts cutoff i])
  next
    case False
    show ?thesis
    proof (cases "i < length ts")
      case True
      then have d: "drop i ts = ts ! i # drop (Suc i) ts" by (simp add: Cons_nth_drop_Suc)
      with False True show ?thesis by (simp add: pruneLoop.simps[of ts cutoff i])
    next
      case False
      then have "pruneLoop ts cutoff i = i" by (subst pruneLoop.simps) simp
      with False "1.prems" show ?thesis by simp
    qed
  qed
qed

lemma prune_dropWhile:
  "timestamps (prune lim entry now) = dropWhile (\<lambda>t. t \<le> now - windowMs lim) (timestamps entry)"
  using pruneLoop_drop[of 0 "timestamps entry" "now - windowMs lim"]
  by (auto simp: prune_def Let_def)

lemma sorted_dropWhile_filter:
  "sorted ts \<Longrightarrow> dropWhile (\<lambda>t. t \<le> c) ts = filter (\<lambda>t. c < t) (ts :: int list)"
proof (induction ts)
  case Nil
  then show ?case by simp
next
  case (Cons a ts)
  show ?case
  proof (cases "a \<le> c")
    case True
    then show ?thesis using Cons by simp
  next
    case False
    then have "\<forall>t \<in> set ts. c < t" using Cons.prems by auto
    then have "filter (\<lambda>t. c < t) ts = ts" by simp
    then show ?thesis using False by simp
  qed
qed

lemma prune_eq:
  "prune lim entry now = entry\<lparr>timestamps := dropWhile (\<lambda>t. t \<le> now - windowMs lim) (timestamps entry)\<rparr>"
  using prune_dropWhile[of lim entry now] by (cases entry; cases "prune lim entry now") (simp add: prune_def Let_def)

lemma prune_length: "length (timestamps (prune lim entry now)) \<le> length (timestamps entry)"
  by (simp add: prune_dropWhile length_dropWhile_le)

lemma prune_windowMs_only: "windowMs lim' = windowMs lim \<Longrightarrow> prune lim' entry now = prune lim entry now"
  by (simp add: prune_def)

lemma tryAcquire_config [simp]:
  "maxRequests (snd (tryAcquire lim key now)) = maxRequests lim"
  "windowMs (snd (tryAcquire lim key now)) = windowMs lim"
  by (simp_all add: tryAcquire_def getOrCreateEntry_def Let_def split: option.split)

lemma getRemaining_config [simp]:
  "maxRequests (snd (getRemaining lim key now)) = maxRequests lim"
  "windowMs (snd (getRemaining lim key now)) = windowMs lim"
  by (simp_all add: getRemaining_def Let_def split: option.split)

lemma limiterStep_config [simp]:
  "maxRequests (limiterStep c lim) = maxRequests lim"
  "windowMs (limiterStep c lim) = windowMs lim"
  by (cases c; simp add: resetKey_def resetAll_def)+

lemma tryAcquire_bucket:
  assumes "0 < maxRequests lim"
  shows "buckets (snd (tryAcquire lim key now)) =
           (buckets lim)(key \<mapsto>
              (let pruned = prune lim (fst (getOrCreateEntry lim key)) now
               in if fst (tryAcquire lim key now)
                  then pruned\<lparr>timestamps := timestamps pruned @ [now]\<rparr> else pruned))"
    and "fst (tryAcquire lim key now) =
           (int (length (timestamps (prune lim (fst (getOrCreateEntry lim key)) now))) < maxRequests lim)"
  using assms
  by (auto simp: tryAcquire_def getOrCreateEntry_def Let_def prune_def split: option.split)

text \<open>
  With a clock that never runs backwards every bucket stays in non-decreasing order,
  and no timestamp in it is later than the clock.
\<close>

lemma inOrder_later: "inOrder t lim \<Longrightarrow> t \<le> u \<Longrightarrow> inOrder u lim"
  by (fastforce simp: inOrder_def)

lemma prune_inOrder:
  assumes "sorted (timestamps entry)" "\<forall>x \<in> set (timestamps entry). x \<le> t"
  shows "sorted (timestamps (prune lim entry now))"
    and "\<forall>x \<in> set (timestamps (prune lim entry now)). x \<le> t"
  using assms by (auto simp: prune_dropWhile sorted_dropWhile dest: set_dropWhileD)

lemma tryAcquire_inOrder:
  assumes "inOrder t lim"
  shows "inOrder t (snd (tryAcquire lim key t))"
proof (cases "0 < maxRequests lim")
  case False
  then show ?thesis using assms by (simp add: tryAcquire_def)
next
  case True
  let ?e = "fst (getOrCreateEntry lim key)"
  have e: "sorted (timestamps ?e)" "\<forall>x \<in> set (timestamps ?e). x \<le> t"
    using assms by (auto simp: inOrder_def getOrCreateEntry_def split: option.split)
  note p = prune_inOrder[OF e, of lim t]
  have "sorted (timestamps (prune lim ?e t) @ [t])"
    using p by (simp add: sorted_append)
  then show ?thesis
    using assms p tryAcquire_bucket(1)[OF True, of key t]
    by (auto simp: inOrder_def Let_def)
qed

lemma getRemaining_inOrder:
  assumes "inOrder t lim"
  shows "inOrder t (snd (getRemaining lim key now))"
proof (cases "maxRequests lim \<le> 0 \<or> buckets lim key = None")
  case True
  then show ?thesis using assms by (auto simp: getRemaining_def)
next
  case False
  then obtain entry where e: "buckets lim key = Some entry" and pos: "0 < maxRequests lim" by auto
  have "sorted (timestamps entry)" "\<forall>x \<in> set (timestamps entry). x \<le> t"
    using assms e by (auto simp: inOrder_def)
  note p = prune_inOrder[OF this, of lim now]
  show ?thesis using assms e pos p
    by (auto simp: inOrder_def getRemaining_def Let_def)
qed

lemma limiterStep_inOrder:
  assumes "inOrder t lim" "\<forall>x \<in> set (limiterReadings [c]). x = t"
  shows "inOrder t (limiterStep c lim)"
proof (cases c)
  case (TryAcquire key now)
  then show ?thesis using assms by (simp add: tryAcquire_inOrder)
next
  case (GetRemaining key now)
  then show ?thesis using assms by (simp add: getRemaining_inOrder)
next
  case (ResetKey key)
  then show ?thesis using assms by (auto simp: resetKey_def inOrder_def)
next
  case ResetAll
  then show ?thesis by (simp add: resetAll_def inOrder_def)
qed

lemma limiterRun_inOrder:
  "sorted (limiterReadings cs @ [now]) \<Longrightarrow>
   \<forall>t \<in> set (limiterReadings cs @ [now]). inOrder t lim \<Longrightarrow>
   inOrder now (limiterRun cs lim)"
proof (induction cs arbitrary: lim)
  case Nil
  then show ?case by simp
next
  case (Cons c cs)
  have srt: "sorted (limiterReadings cs @ [now])"
    using Cons.prems(1) by (cases c) simp_all
  have "\<forall>u \<in> set (limiterReadings cs @ [now]). inOrder u (limiterStep c lim)"
  proof (cases "limiterReadings [c]")
    case Nil
    then have "\<forall>t. inOrder t lim \<longrightarrow> inOrder t (limiterStep c lim)"
      by (simp add: limiterStep_inOrder)
    moreover have "limiterReadings (c # cs) = limiterReadings cs" using Nil by (cases c) simp_all
    ultimately show ?thesis using Cons.prems(2) by simp
  next
    case (Cons t ts)
    then have r: "limiterReadings [c] = [t]" "limiterReadings (c # cs) = t # limiterReadings cs"
      by (cases c; simp)+
    have "inOrder t lim" using Cons.prems(2) r by simp
    then have "inOrder t (limiterStep c lim)" using r by (simp add: limiterStep_inOrder)
    moreover have "\<forall>u \<in> set (limiterReadings cs @ [now]). t \<le> u"
      using Cons.prems(1) r by auto
    ultimately show ?thesis using inOrder_later by blast
  qed
  with srt Cons.IH show ?case by simp
qed

lemma reachable_bucket_in_order:
  assumes "sorted (limiterReadings cs @ [now])"
    and "buckets (limiterRun cs (createRateLimiter m w)) key = Some entry"
  shows "sorted (timestamps entry) \<and> (\<forall>t \<in> set (timestamps entry). t \<le> now)"
proof -
  have "\<forall>t \<in> set (limiterReadings cs @ [now]). inOrder t (createRateLimiter m w)"
    by (simp add: inOrder_def createRateLimiter_def)
  from limiterRun_inOrder[OF assms(1) this] assms(2) show ?thesis
    by (simp add: inOrder_def)
qed

text \<open>Evaluation of the limiter on concrete histories.\<close>

lemmas rl_eval = createRateLimiter_def tryAcquire_def getRemaining_def getOrCreateEntry_def
  prune_eq Let_def

text \<open>
  Claim C6, as stated, fails at the boundary of the window. With \<open>windowMs = 1000\<close> a
  timestamp recorded at time 0 is, at time 1000, not older than \<open>now - windowMs = 0\<close> and
  lies in the closed interval \<open>[now - windowMs, now]\<close>; the pruning step of
  \<^verbatim>\<open>tryAcquire\<close> removes it all the same, because the loop compares with \<open>\<le>\<close>.
\<close>

theorem prune_boundary_counterexample:
  "buckets (limiterRun [TryAcquire ''k'' 0] (createRateLimiter 3 1000)) ''k''
     = Some \<lparr>timestamps = [0]\<rparr>
   \<and> \<not> (0 :: int) < 1000 - 1000
   \<and> (1000 - 1000 :: int) \<le> 0 \<and> (0 :: int) \<le> 1000
   \<and> timestamps (prune (createRateLimiter 3 1000) \<lparr>timestamps = [0]\<rparr> 1000) = []
   \<and> buckets (limiterRun [TryAcquire ''k'' 0, TryAcquire ''k'' 1000] (createRateLimiter 3 1000)) ''k''
     = Some \<lparr>timestamps = [1000]\<rparr>"
  by (simp add: rl_eval)

text \<open>
  Claim C6, amended. On a bucket whose timestamps are in non-decreasing order and not
  later than \<open>now\<close>, the pruning step removes exactly the timestamps \<open>t \<le> now - windowMs\<close>
  and keeps all the others, in their order, so that every timestamp kept lies in the
  half-open interval \<open>(now - windowMs, now]\<close>. \<^verbatim>\<open>tryAcquire\<close> (when \<open>maxRequests > 0\<close>)
  and \<^verbatim>\<open>getRemaining\<close> leave the key's bucket pruned in this way, \<^verbatim>\<open>tryAcquire\<close> with
  \<open>now\<close> appended when it admits the request.
\<close>

theorem prune_removes_expired:
  assumes "sorted (timestamps entry)" and "\<forall>t \<in> set (timestamps entry). t \<le> now"
  shows "timestamps (prune lim entry now) = filter (\<lambda>t. now - windowMs lim < t) (timestamps entry)
         \<and> (\<forall>t \<in> set (timestamps (prune lim entry now)). now - windowMs lim < t \<and> t \<le> now)
         \<and> (0 < maxRequests lim \<and> buckets lim key = Some entry \<longrightarrow>
              buckets (snd (tryAcquire lim key now)) key =
                Some (if fst (tryAcquire lim key now)
                      then (prune lim entry now)\<lparr>timestamps := timestamps (prune lim entry now) @ [now]\<rparr>
                      else prune lim entry now)
              \<and> buckets (snd (getRemaining lim key now)) key = Some (prune lim entry now))"
proof -
  have a: "timestamps (prune lim entry now) = filter (\<lambda>t. now - windowMs lim < t) (timestamps entry)"
    using assms(1) by (simp add: prune_dropWhile sorted_dropWhile_filter)
  have b: "\<forall>t \<in> set (timestamps (prune lim entry now)). now - windowMs lim < t \<and> t \<le> now"
    using assms(2) by (simp add: a)
  have c: "0 < maxRequests lim \<and> buckets lim key = Some entry \<longrightarrow>
              buckets (snd (tryAcquire lim key now)) key =
                Some (if fst (tryAcquire lim key now)
                      then (prune lim entry now)\<lparr>timestamps := timestamps (prune lim entry now) @ [now]\<rparr>
                      else prune lim entry now)
              \<and> buckets (snd (getRemaining lim key now)) key = Some (prune lim entry now)"
    using tryAcquire_bucket(1)[of lim key now]
    by (auto simp: Let_def getOrCreateEntry_def getRemaining_def)
  from a b c show ?thesis by blast
qed

theorem prune_removes_expired_witness:
  "sorted (timestamps \<lparr>timestamps = [0, 400, 800]\<rparr>)
   \<and> buckets (limiterRun [TryAcquire ''k'' 0, TryAcquire ''k'' 400, TryAcquire ''k'' 800]
        (createRateLimiter 3 1000)) ''k'' = Some \<lparr>timestamps = [0, 400, 800]\<rparr>
   \<and> timestamps (prune (limiterRun [TryAcquire ''k'' 0, TryAcquire ''k'' 400, TryAcquire ''k'' 800]
        (createRateLimiter 3 1000)) \<lparr>timestamps = [0, 400, 800]\<rparr> 1001) = [400, 800]
   \<and> buckets (snd (tryAcquire (limiterRun [TryAcquire ''k'' 0, TryAcquire ''k'' 400, TryAcquire ''k'' 800]
        (createRateLimiter 3 1000)) ''k'' 1001)) ''k'' = Some \<lparr>timestamps = [400, 800, 1001]\<rparr>
   \<and> buckets (snd (getRemaining (limiterRun [TryAcquire ''k'' 0, TryAcquire ''k'' 400, TryAcquire ''k'' 800]
        (createRateLimiter 3 1000)) ''k'' 1001)) ''k'' = Some \<lparr>timestamps = [400, 800]\<rparr>"
  using prune_removes_expired
          [of "\<lparr>timestamps = [0, 400, 800]\<rparr>" 1001
              "limiterRun [TryAcquire ''k'' 0, TryAcquire ''k'' 400, TryAcquire ''k'' 800]
                 (createRateLimiter 3 1000)" "''k''"]
  by (simp add: rl_eval)

subsection \<open>The bound on a bucket's length\<close>

lemma tryAcquire_withinLimit:
  assumes "withinLimit lim"
  shows "withinLimit (snd (tryAcquire lim key now))"
proof (cases "maxRequests lim \<le> 0")
  case True
  then show ?thesis using assms by (simp add: tryAcquire_def)
next
  case False
  then have pos: "0 < maxRequests lim" by simp
  let ?e = "fst (getOrCreateEntry lim key)"
  let ?p = "prune lim ?e now"
  have le: "int (length (timestamps ?e)) \<le> maxRequests lim"
    using assms pos by (auto simp: withinLimit_def getOrCreateEntry_def split: option.split)
  have "int (length (timestamps ?p)) \<le> maxRequests lim"
    using le prune_length[of lim ?e now] by linarith
  then show ?thesis
    using assms tryAcquire_bucket[OF pos, of key now]
    by (auto simp: withinLimit_def Let_def)
qed

lemma getRemaining_withinLimit:
  assumes "withinLimit lim"
  shows "withinLimit (snd (getRemaining lim key now))"
proof (cases "maxRequests lim \<le> 0 \<or> buckets lim key = None")
  case True
  then show ?thesis using assms by (auto simp: getRemaining_def)
next
  case False
  then obtain entry where e: "buckets lim key = Some entry" and pos: "0 < maxRequests lim" by auto
  have "int (length (timestamps (prune lim entry now))) \<le> maxRequests lim"
    using assms e prune_length[of lim entry now] by (fastforce simp: withinLimit_def)
  then show ?thesis using assms e pos
    by (auto simp: withinLimit_def getRemaining_def Let_def)
qed

lemma limiterStep_withinLimit:
  assumes "withinLimit lim"
  shows "withinLimit (limiterStep c lim)"
proof (cases c)
  case (TryAcquire key now)
  then show ?thesis using assms by (simp add: tryAcquire_withinLimit)
next
  case (GetRemaining key now)
  then show ?thesis using assms by (simp add: getRemaining_withinLimit)
next
  case (ResetKey key)
  then show ?thesis using assms by (auto simp: resetKey_def withinLimit_def)
next
  case ResetAll
  then show ?thesis by (simp add: resetAll_def withinLimit_def)
qed

lemma limiterRun_withinLimit: "withinLimit lim \<Longrightarrow> withinLimit (limiterRun cs lim)"
  by (induction cs arbitrary: lim) (simp_all add: limiterStep_withinLimit)

lemma limiterRun_config [simp]:
  "maxRequests (limiterRun cs lim) = maxRequests lim"
  by (induction cs arbitrary: lim) simp_all

text \<open>
  Claim C7. After any history of \<^verbatim>\<open>tryAcquire\<close>, \<^verbatim>\<open>getRemaining\<close>, \<^verbatim>\<open>reset\<close> and
  \<^verbatim>\<open>resetAll\<close> calls on a new limiter, whatever their number and their clocks, every
  bucket holds at most \<open>maxRequests\<close> timestamps. A \<^verbatim>\<open>tryAcquire\<close> that finds
  \<open>maxRequests\<close> or more timestamps after pruning returns false and leaves the pruned
  bucket without a new timestamp; a \<^verbatim>\<open>tryAcquire\<close> that returns true leaves at most
  \<open>maxRequests\<close> timestamps in the bucket.
\<close>

theorem bucket_length_bounded:
  "(buckets (limiterRun cs (createRateLimiter m w)) key = Some entry \<longrightarrow>
      int (length (timestamps entry)) \<le> m)
   \<and> (0 < maxRequests lim
        \<and> maxRequests lim \<le> int (length (timestamps (prune lim (fst (getOrCreateEntry lim key)) now))) \<longrightarrow>
      fst (tryAcquire lim key now) = False
      \<and> buckets (snd (tryAcquire lim key now)) key = Some (prune lim (fst (getOrCreateEntry lim key)) now))
   \<and> (fst (tryAcquire lim key now) \<and> buckets (snd (tryAcquire lim key now)) key = Some e' \<longrightarrow>
      int (length (timestamps e')) \<le> maxRequests lim)"
proof -
  have "withinLimit (createRateLimiter m w)" by (simp add: withinLimit_def createRateLimiter_def)
  then have "withinLimit (limiterRun cs (createRateLimiter m w))" by (rule limiterRun_withinLimit)
  then have a: "buckets (limiterRun cs (createRateLimiter m w)) key = Some entry \<longrightarrow>
      int (length (timestamps entry)) \<le> m"
    by (auto simp: withinLimit_def createRateLimiter_def)
  have b: "0 < maxRequests lim
        \<and> maxRequests lim \<le> int (length (timestamps (prune lim (fst (getOrCreateEntry lim key)) now))) \<longrightarrow>
      fst (tryAcquire lim key now) = False
      \<and> buckets (snd (tryAcquire lim key now)) key = Some (prune lim (fst (getOrCreateEntry lim key)) now)"
    using tryAcquire_bucket[of lim key now] by (auto simp: Let_def)
  have c: "fst (tryAcquire lim key now) \<and> buckets (snd (tryAcquire lim key now)) key = Some e' \<longrightarrow>
      int (length (timestamps e')) \<le> maxRequests lim"
  proof (cases "0 < maxRequests lim")
    case True
    then show ?thesis using tryAcquire_bucket[OF True, of key now] by (auto simp: Let_def)
  next
    case False
    then show ?thesis by (simp add: tryAcquire_def)
  qed
  from a b c show ?thesis by blast
qed

theorem bucket_length_bounded_witness:
  "buckets (limiterRun [TryAcquire ''k'' 0, TryAcquire ''k'' 1, TryAcquire ''k'' 2, TryAcquire ''k'' 3]
      (createRateLimiter 3 1000)) ''k'' = Some \<lparr>timestamps = [0, 1, 2]\<rparr>
   \<and> int (length (timestamps \<lparr>timestamps = [0, 1, 2 :: int]\<rparr>)) \<le> 3
   \<and> fst (tryAcquire (limiterRun [TryAcquire ''k'' 0, TryAcquire ''k'' 1, TryAcquire ''k'' 2]
      (createRateLimiter 3 1000)) ''k'' 3) = False
   \<and> fst (tryAcquire (limiterRun [TryAcquire ''k'' 0, TryAcquire ''k'' 1]
      (createRateLimiter 3 1000)) ''k'' 2) = True
   \<and> buckets (snd (tryAcquire (limiterRun [TryAcquire ''k'' 0, TryAcquire ''k'' 1]
      (createRateLimiter 3 1000)) ''k'' 2)) ''k'' = Some \<lparr>timestamps = [0, 1, 2]\<rparr>"
  using bucket_length_bounded
          [of "[TryAcquire ''k'' 0, TryAcquire ''k'' 1, TryAcquire ''k'' 2, TryAcquire ''k'' 3]"
              3 1000 "''k''" "\<lparr>timestamps = [0, 1, 2]\<rparr>"
              "limiterRun [TryAcquire ''k'' 0, TryAcquire ''k'' 1, TryAcquire ''k'' 2]
                 (createRateLimiter 3 1000)" 3 "\<lparr>timestamps = [0, 1, 2]\<rparr>"]
        bucket_length_bounded
          [of "[]" 3 1000 "''k''" "\<lparr>timestamps = [0, 1, 2]\<rparr>"
              "limiterRun [TryAcquire ''k'' 0, TryAcquire ''k'' 1] (createRateLimiter 3 1000)"
              2 "\<lparr>timestamps = [0, 1, 2]\<rparr>"]
  by (simp add: rl_eval)

section \<open>Properties of the node registry model\<close>

subsection \<open>Counting pending entries and fired continuations\<close>


lemma pendingCount_append [simp]:
  "pendingCount (xs @ ys) c i = pendingCount xs c i + pendingCount ys c i"
  by (induction xs) auto

















subsection \<open>The bound on pending calls\<close>

lemma find_updateFirst:
  "\<forall>x. P x \<longrightarrow> P (f x) \<Longrightarrow> find P (updateFirst P f xs) = map_option f (find P xs)"
  by (induction xs) auto

lemma invoke_admitted:
  assumes "find (\<lambda>conn. node_id conn = n) (connections reg) = Some conn"
    and "length (pendingCalls conn) < maxPendingInvokes"
  shows "fst (invoke reg n cmd params tmo) = Deferred (nextCorrelation reg)"
    and "find (\<lambda>x. node_id x = n) (connections (snd (invoke reg n cmd params tmo)))
           = Some (addPending (nextCorrelation reg) \<lparr>command = cmd, timeoutMs = tmo\<rparr> conn)"
    and "length (transmitted (snd (invoke reg n cmd params tmo))) = length (transmitted reg) + 1"
  using assms by (simp_all add: invoke_def Let_def find_updateFirst addPending_def)

lemma invokeTimes_fills:
  assumes "find (\<lambda>conn. node_id conn = n) (connections reg) = Some conn"
    and "length (pendingCalls conn) + k \<le> maxPendingInvokes"
  shows "\<exists>conn'. find (\<lambda>x. node_id x = n) (connections (invokeTimes k n cmd params tmo reg)) = Some conn'
           \<and> length (pendingCalls conn') = length (pendingCalls conn) + k
           \<and> length (transmitted (invokeTimes k n cmd params tmo reg)) = length (transmitted reg) + k"
  using assms
proof (induction k arbitrary: reg conn)
  case 0
  then show ?case by simp
next
  case (Suc k)
  have lt: "length (pendingCalls conn) < maxPendingInvokes" using Suc.prems(2) by simp
  note a = invoke_admitted[OF Suc.prems(1) lt, of cmd params tmo]
  let ?conn1 = "addPending (nextCorrelation reg) \<lparr>command = cmd, timeoutMs = tmo\<rparr> conn"
  have "length (pendingCalls ?conn1) + k \<le> maxPendingInvokes"
    using Suc.prems(2) by (simp add: addPending_def)
  from Suc.IH[OF a(2) this] show ?case using a(3) by (simp add: addPending_def)
qed

lemma invoke_full:
  assumes "find (\<lambda>conn. node_id conn = n) (connections reg) = Some conn"
    and "maxPendingInvokes \<le> length (pendingCalls conn)"
  shows "invoke reg n cmd params tmo = (Immediate (InvokeFailed QUEUE_FULL), reg)"
  using assms by (simp add: invoke_def)

text \<open>
  Claim C3. When the connection of the node holds 1000 pending calls, \<^verbatim>\<open>invoke\<close>
  resolves at once with QUEUE_FULL and leaves the registry as it was: no frame is added
  to those transmitted and no PendingCall is stored. In particular, after a node is
  registered with a new registry and invoked 1000 times without a reply, 1000 frames
  have been transmitted, and the next invoke returns QUEUE_FULL and changes nothing.
\<close>

theorem invoke_rejects_when_queue_full:
  "(find (\<lambda>conn. node_id conn = n) (connections reg) = Some conn
      \<and> length (pendingCalls conn) = 1000 \<longrightarrow>
      invoke reg n cmd params tmo = (Immediate (InvokeFailed QUEUE_FULL), reg))
   \<and> length (transmitted (invokeTimes 1000 n cmd params tmo (register createNodeRegistry c n))) = 1000
   \<and> invoke (invokeTimes 1000 n cmd params tmo (register createNodeRegistry c n)) n cmd' params' tmo'
       = (Immediate (InvokeFailed QUEUE_FULL),
          invokeTimes 1000 n cmd params tmo (register createNodeRegistry c n))"
proof -
  let ?fresh = "register createNodeRegistry c n"
  let ?reg = "invokeTimes 1000 n cmd params tmo ?fresh"
  have f0: "find (\<lambda>conn. node_id conn = n) (connections ?fresh)
              = Some \<lparr>conn_id = c, node_id = n, pendingCalls = []\<rparr>"
    by (simp add: register_def createNodeRegistry_def)
  have "length (pendingCalls \<lparr>conn_id = c, node_id = n, pendingCalls = []\<rparr>) + 1000 \<le> maxPendingInvokes"
    by (simp add: maxPendingInvokes_def)
  from invokeTimes_fills[OF f0 this, of cmd params tmo]
  obtain conn' where c': "find (\<lambda>x. node_id x = n) (connections ?reg) = Some conn'"
      "length (pendingCalls conn') = 1000" "length (transmitted ?reg) = length (transmitted ?fresh) + 1000"
    by auto
  have t: "length (transmitted ?reg) = 1000"
    using c'(3) by (simp add: register_def createNodeRegistry_def)
  have full: "invoke ?reg n cmd' params' tmo' = (Immediate (InvokeFailed QUEUE_FULL), ?reg)"
    using c'(1,2) invoke_full[of n ?reg conn' cmd' params' tmo']
    by (simp add: maxPendingInvokes_def)
  have gen: "find (\<lambda>conn. node_id conn = n) (connections reg) = Some conn
      \<and> length (pendingCalls conn) = 1000 \<longrightarrow>
      invoke reg n cmd params tmo = (Immediate (InvokeFailed QUEUE_FULL), reg)"
    by (simp add: invoke_full maxPendingInvokes_def)
  from gen t full show ?thesis by blast
qed

theorem invoke_rejects_when_queue_full_witness:
  "find (\<lambda>conn. node_id conn = ''node-1'')
      (connections (invokeTimes 1000 ''node-1'' ''test.cmd'' [] 60000
         (register createNodeRegistry ''conn-1'' ''node-1'')) ) \<noteq> None
   \<and> invoke (invokeTimes 1000 ''node-1'' ''test.cmd'' [] 60000
         (register createNodeRegistry ''conn-1'' ''node-1'')) ''node-1'' ''test.cmd'' [] 60000
       = (Immediate (InvokeFailed QUEUE_FULL),
          invokeTimes 1000 ''node-1'' ''test.cmd'' [] 60000
            (register createNodeRegistry ''conn-1'' ''node-1''))"
proof -
  let ?fresh = "register createNodeRegistry ''conn-1'' ''node-1''"
  let ?reg = "invokeTimes 1000 ''node-1'' ''test.cmd'' [] 60000 ?fresh"
  have f0: "find (\<lambda>conn. node_id conn = ''node-1'') (connections ?fresh)
              = Some \<lparr>conn_id = ''conn-1'', node_id = ''node-1'', pendingCalls = []\<rparr>"
    by (simp add: register_def createNodeRegistry_def)
  have "length (pendingCalls \<lparr>conn_id = ''conn-1'', node_id = ''node-1'', pendingCalls = []\<rparr>) + 1000
          \<le> maxPendingInvokes"
    by (simp add: maxPendingInvokes_def)
  from invokeTimes_fills[OF f0 this, of "''test.cmd''" "[]" 60000]
  obtain conn' where c': "find (\<lambda>x. node_id x = ''node-1'') (connections ?reg) = Some conn'"
      "length (pendingCalls conn') = 1000"
    by auto
  from invoke_rejects_when_queue_full[of "''node-1''" ?reg conn' "''test.cmd''" "[]" 60000
      "''conn-1''" "''test.cmd''" "[]" 60000] c'
  show ?thesis by simp
qed

end
